theory Spec2Isabelle
  imports Main "HOL-Library.Sublist" "HOL-Library.List_Lexorder" "HOL-Library.Char_ord"
begin

section \<open>Python strings\<close>

text \<open>
  A Python \<open>str\<close> is modelled as a \<open>string\<close> holding its UTF-8 bytes. Substring
  search, prefix tests and comparison of UTF-8 texts agree with the same operations on
  code points. The whitespace and line-break predicates below are the ASCII part of
  Python's tables, so the model is exact for texts without the non-ASCII Unicode
  whitespace and line-break characters (U+0085, U+00A0, U+2028, ...).
\<close>

definition NL :: char where
  "NL = CHR 0x0A"

definition CR :: char where
  "CR = CHR 0x0D"

text \<open>\<open>str.isspace\<close> on one character.\<close>

definition isspace :: "char \<Rightarrow> bool" where
  "isspace c = (c \<in> set [CHR 0x09, CHR 0x0A, CHR 0x0B, CHR 0x0C, CHR 0x0D,
                          CHR 0x1C, CHR 0x1D, CHR 0x1E, CHR 0x1F, CHR 0x20])"

definition lstrip :: "string \<Rightarrow> string" where
  "lstrip s = dropWhile isspace s"

definition rstrip :: "string \<Rightarrow> string" where
  "rstrip s = rev (dropWhile isspace (rev s))"

definition strip :: "string \<Rightarrow> string" where
  "strip s = lstrip (rstrip s)"

text \<open>\<open>s.startswith(p)\<close> and \<open>needle in hay\<close>.\<close>

definition startswith :: "string \<Rightarrow> string \<Rightarrow> bool" where
  "startswith s p = prefix p s"

definition str_in :: "string \<Rightarrow> string \<Rightarrow> bool" where
  "str_in needle hay = sublist needle hay"

text \<open>\<open>s.split('\n')\<close>: the pieces between newlines, never an empty list.\<close>

fun split_nl :: "string \<Rightarrow> string list" where
  "split_nl [] = [[]]"
| "split_nl (c # cs) =
     (if c = NL then [] # split_nl cs
      else (case split_nl cs of
              [] \<Rightarrow> [[c]]
            | l # ls \<Rightarrow> (c # l) # ls))"

text \<open>\<open>'\n'.join(lines)\<close>.\<close>

fun join_nl :: "string list \<Rightarrow> string" where
  "join_nl [] = []"
| "join_nl [l] = l"
| "join_nl (l # ls) = l @ NL # join_nl ls"

text \<open>
  \<open>s.splitlines()\<close>: lines end at \<open>\n\<close>, \<open>\r\n\<close>, \<open>\r\<close>, \<open>\v\<close>, \<open>\f\<close>,
  \<open>\x1c\<close>, \<open>\x1d\<close> and \<open>\x1e\<close>; no empty line is produced after a final line break.
\<close>

definition is_linebreak :: "char \<Rightarrow> bool" where
  "is_linebreak c = (c \<in> set [CHR 0x0A, CHR 0x0B, CHR 0x0C, CHR 0x0D,
                               CHR 0x1C, CHR 0x1D, CHR 0x1E])"

fun splitlines :: "string \<Rightarrow> string list" where
  "splitlines [] = []"
| "splitlines (c # cs) =
     (if c = CR then
        (case cs of
           [] \<Rightarrow> [[]]
         | d # ds \<Rightarrow> if d = NL then [] # splitlines ds else [] # splitlines cs)
      else if is_linebreak c then [] # splitlines cs
      else (case splitlines cs of
              [] \<Rightarrow> [[c]]
            | l # ls \<Rightarrow> (c # l) # ls))"

text \<open>
  \<open>s.split(sep, 1)\<close> for a non-empty separator: the text before and the text after the
  first occurrence of \<open>sep\<close>, or the text alone when \<open>sep\<close> does not occur.
\<close>

fun split_once :: "string \<Rightarrow> string \<Rightarrow> string list" where
  "split_once sep [] = [[]]"
| "split_once sep (c # cs) =
     (if prefix sep (c # cs) then [[], drop (length sep) (c # cs)]
      else (case split_once sep cs of
              [a, b] \<Rightarrow> [c # a, b]
            | _ \<Rightarrow> [c # cs]))"

section \<open>Paths and the render result\<close>

text \<open>
  A \<open>pathlib.Path\<close> is the list of its components; \<open>p.name\<close> is the last one and
  \<open>str(p)\<close> joins them with a slash (the empty path prints as a dot).
\<close>

type_synonym path = "string list"

definition path_name :: "path \<Rightarrow> string" where
  "path_name p = (if p = [] then [] else last p)"

fun join_slash :: "string list \<Rightarrow> string" where
  "join_slash [] = []"
| "join_slash [l] = l"
| "join_slash (l # ls) = l @ CHR ''/'' # join_slash ls"

definition path_str :: "path \<Rightarrow> string" where
  "path_str p = (if p = [] then ''.'' else join_slash p)"

datatype py_error = IndexError | RenderError

record render_result =
  video_path :: path
  script_path :: path
  class_name :: string
  section_videos :: "path list"

text \<open>Python list indexing: a negative index counts from the end.\<close>

definition py_index :: "'a list \<Rightarrow> int \<Rightarrow> py_error + 'a" where
  "py_index xs i =
     (if 0 \<le> i \<and> i < int (length xs) then Inr (xs ! nat i)
      else if i < 0 \<and> - int (length xs) \<le> i then Inr (xs ! nat (int (length xs) + i))
      else Inl IndexError)"

text \<open>
  \<open>MainWindow._on_finished\<close> (ui_main.py), the computation of \<open>section_video_path\<close>
  from the round's \<open>segment_index\<close> and the render result. The empty string is what is
  stored when no file could be chosen.
\<close>

definition on_finished_section_video_path :: "int \<Rightarrow> render_result \<Rightarrow> py_error + string" where
  "on_finished_section_video_path segment_index r =
     (if segment_index = 0 then Inr (path_str (video_path r))
      else if section_videos r \<noteq> [] then
        (let sorted_videos = sort_key path_name (section_videos r);
             idx = segment_index
         in if idx < int (length sorted_videos)
            then map_sum id path_str (py_index sorted_videos idx)
            else Inr (path_str (last sorted_videos)))
      else Inr [])"

section \<open>Script assembly (ai_clients.py)\<close>

text \<open>
  The source's private helpers carry a leading underscore, which an Isabelle name cannot
  start with: \<open>_strip_code_fences\<close> is \<open>strip_code_fences\<close> here, and so on.
\<close>

definition SECTION_MARKER :: string where
  "SECTION_MARKER = ''# <<SECTION_BREAK>>''"

text \<open>The renderer's section-break directive, the literal the source writes in place of a marker.\<close>

definition NEXT_SECTION :: string where
  "NEXT_SECTION = ''self.next_section()''"

definition CONSTRUCT_SIG :: string where
  "CONSTRUCT_SIG = ''def construct(self):''"

definition INDENT8 :: string where
  "INDENT8 = ''        ''"

definition FENCE :: string where
  "FENCE = ''```''"

text \<open>The comment line of the inserted block: eight spaces, a hash sign, a space and three CJK characters (UTF-8).\<close>

definition COMMENT_LINE :: string where
  "COMMENT_LINE = ''        # '' @
     [CHR 0xE6, CHR 0x96, CHR 0xB0, CHR 0xE5, CHR 0x88, CHR 0x86, CHR 0xE6, CHR 0xAE, CHR 0xB5]"

definition strip_code_fences :: "string \<Rightarrow> string" where
  "strip_code_fences code =
     (let stripped = strip code in
      if startswith stripped FENCE then
        (let lines0 = splitlines stripped;
             lines1 = (if lines0 \<noteq> [] then tl lines0 else lines0);
             lines2 = (if lines1 \<noteq> [] \<and> startswith (strip (last lines1)) FENCE
                       then butlast lines1 else lines1)
         in join_nl lines2)
      else code)"

text \<open>\<open>len(line) - len(line.lstrip())\<close>.\<close>

definition indent_width :: "string \<Rightarrow> nat" where
  "indent_width line = length line - length (lstrip line)"

definition remove_common_indent :: "string \<Rightarrow> string" where
  "remove_common_indent code =
     (let lines = filter (\<lambda>line. strip line \<noteq> []) (splitlines code) in
      if lines = [] then []
      else
        (let min_indent = min_list (map indent_width (filter (\<lambda>line. strip line \<noteq> []) lines))
         in strip (join_nl (map (\<lambda>line. if length line > min_indent
                                             then drop min_indent line else line) lines))))"

text \<open>
  The first loop of \<open>_find_construct_insert_position\<close>: \<open>i\<close> is the running index,
  \<open>found\<close> is \<open>found_construct\<close> and \<open>lst\<close> is \<open>last_indented_line\<close>, with
  \<open>None\<close> for the source's \<open>-1\<close>.
\<close>

fun scan_indented :: "string list \<Rightarrow> nat \<Rightarrow> bool \<Rightarrow> nat option \<Rightarrow> nat option" where
  "scan_indented [] i found lst = lst"
| "scan_indented (line # rest) i found lst =
     (let found' = (if str_in CONSTRUCT_SIG line then True else found);
          lst' = (if found' \<and> (startswith line ''    '' \<or> startswith line [CHR 0x09])
                      \<and> strip line \<noteq> []
                   then Some i else lst)
      in scan_indented rest (Suc i) found' lst')"

text \<open>The second loop: the index after the first line that holds the signature.\<close>

fun after_signature :: "string list \<Rightarrow> nat \<Rightarrow> nat option" where
  "after_signature [] i = None"
| "after_signature (line # rest) i =
     (if str_in CONSTRUCT_SIG line then Some (i + 1) else after_signature rest (Suc i))"

definition find_construct_insert_position :: "string list \<Rightarrow> nat" where
  "find_construct_insert_position lines =
     (case scan_indented lines 0 False None of
        Some last_indented_line \<Rightarrow> last_indented_line + 1
      | None \<Rightarrow>
          (case after_signature lines 0 of
             Some r \<Rightarrow> r
           | None \<Rightarrow> length lines))"

text \<open>The loop of \<open>_strip_markers_and_sections\<close>: the lines it appends to \<open>cleaned_lines\<close>.\<close>

fun kept_lines :: "string list \<Rightarrow> string list" where
  "kept_lines [] = []"
| "kept_lines (line # rest) =
     (let stripped = strip line in
      if str_in SECTION_MARKER line then kept_lines rest
      else if str_in NEXT_SECTION stripped then kept_lines rest
      else line # kept_lines rest)"

definition strip_markers_and_sections :: "string \<Rightarrow> string" where
  "strip_markers_and_sections code = strip (join_nl (kept_lines (split_nl code))) @ [NL]"

text \<open>\<open>lines.pop(idx)\<close> for an index in range.\<close>

definition pop_at :: "nat \<Rightarrow> 'a list \<Rightarrow> 'a list" where
  "pop_at idx xs = take idx xs @ drop (Suc idx) xs"

definition replace_section_marker :: "string \<Rightarrow> string" where
  "replace_section_marker code =
     (let lines = split_nl code;
          marker_indices = filter (\<lambda>i. str_in SECTION_MARKER (lines ! i)) [0..<length lines]
      in if marker_indices = [] then code
         else
           (let first_idx = hd marker_indices;
                indent = take (indent_width (lines ! first_idx)) (lines ! first_idx);
                lines1 = lines[first_idx := indent @ NEXT_SECTION];
                lines2 = fold pop_at (rev (tl marker_indices)) lines1
            in join_nl lines2))"

text \<open>
  The loop of \<open>ensure_section_addition\<close> that appends the generated lines to
  \<open>new_section_lines\<close> (the accumulator).
\<close>

fun append_generated :: "string list \<Rightarrow> string list \<Rightarrow> string list" where
  "append_generated [] new_section_lines = new_section_lines"
| "append_generated (line # rest) new_section_lines =
     append_generated rest
       (if strip line \<noteq> []
        then new_section_lines @ [if \<not> startswith line INDENT8 then INDENT8 @ line else line]
        else new_section_lines @ [[]])"

definition ensure_section_addition :: "string \<Rightarrow> string \<Rightarrow> string \<Rightarrow> string" where
  "ensure_section_addition existing_code ai_response current_prompt =
     (let cleaned = strip (strip_code_fences ai_response) in
      if strip existing_code = [] then strip_markers_and_sections cleaned
      else
        (let cleaned1 =
               (if str_in SECTION_MARKER cleaned then
                  (let parts = split_once SECTION_MARKER cleaned in
                   if length parts > 1 then remove_common_indent (parts ! 1) else cleaned)
                else cleaned);
             lines = split_nl existing_code;
             insert_pos = find_construct_insert_position lines;
             new_section_lines = [[], COMMENT_LINE, INDENT8 @ SECTION_MARKER, []];
             new_section_lines1 =
               append_generated (if cleaned1 \<noteq> [] then split_nl cleaned1 else []) new_section_lines;
             lines1 = take insert_pos lines @ new_section_lines1 @ drop insert_pos lines
         in replace_section_marker (join_nl lines1)))"

section \<open>Scene class extraction (manim_runner.py)\<close>





section \<open>Section video discovery (manim_runner.py)\<close>








section \<open>Notions used in the statements\<close>












section \<open>Facts about the string operations\<close>

lemma NL_notin_marker: "NL \<notin> set SECTION_MARKER"
  by (simp add: NL_def SECTION_MARKER_def)

lemma marker_nonempty: "SECTION_MARKER \<noteq> []"
  by (simp add: SECTION_MARKER_def)

lemma sublist_sep_iff:
  assumes "c \<notin> set n"
  shows "sublist n (a @ c # b) \<longleftrightarrow> sublist n a \<or> sublist n b"
proof
  assume "sublist n (a @ c # b)"
  then consider "sublist n a" | "sublist n (c # b)"
    | xs1 xs2 where "n = xs1 @ xs2" "suffix xs1 a" "prefix xs2 (c # b)"
    by (auto simp: sublist_append)
  then show "sublist n a \<or> sublist n b"
  proof cases
    case 1
    then show ?thesis by simp
  next
    case 2
    then have "prefix n (c # b) \<or> sublist n b" by (simp add: sublist_Cons_right)
    with assms show ?thesis by (cases n) auto
  next
    case 3
    with assms have "xs2 = []" by (cases xs2) auto
    with 3 show ?thesis by auto
  qed
next
  assume "sublist n a \<or> sublist n b"
  then show "sublist n (a @ c # b)"
    by (auto simp: sublist_append sublist_Cons_right)
qed

lemma sublist_join_nl:
  assumes "NL \<notin> set n" and "n \<noteq> []"
  shows "sublist n (join_nl ls) \<longleftrightarrow> (\<exists>l\<in>set ls. sublist n l)"
  using assms by (induction ls rule: join_nl.induct) (auto simp: sublist_sep_iff)

lemma sublist_strip: "sublist (strip s) s"
proof -
  have "sublist (rstrip s) s"
    unfolding rstrip_def by (metis prefix_imp_sublist suffix_dropWhile suffix_to_prefix rev_rev_ident)
  moreover have "sublist (strip s) (rstrip s)"
    by (simp add: strip_def lstrip_def)
  ultimately show ?thesis by (rule sublist_order.order_trans[rotated])
qed

lemma split_nl_nonempty: "split_nl s \<noteq> []"
  by (induction s) (auto split: list.splits)

lemma join_split_nl: "join_nl (split_nl s) = s"
proof (induction s)
  case Nil
  then show ?case by simp
next
  case (Cons c cs)
  then show ?case
    using split_nl_nonempty [of cs]
    by (cases "split_nl cs"; cases "tl (split_nl cs)") (auto)
qed




lemma kept_lines_no_marker: "l \<in> set (kept_lines ls) \<Longrightarrow> \<not> str_in SECTION_MARKER l"
  by (induction ls) (auto simp: Let_def split: if_splits)

lemma sublist_snoc_sep:
  assumes "c \<notin> set n"
  shows "sublist n (s @ [c]) \<longleftrightarrow> sublist n s"
  using sublist_sep_iff [OF assms, of s "[]"] assms by (cases n) auto

lemma strip_markers_no_marker: "\<not> str_in SECTION_MARKER (strip_markers_and_sections code)"
proof
  assume "str_in SECTION_MARKER (strip_markers_and_sections code)"
  then have "sublist SECTION_MARKER (strip (join_nl (kept_lines (split_nl code))))"
    by (simp add: str_in_def strip_markers_and_sections_def sublist_snoc_sep NL_notin_marker)
  then have "sublist SECTION_MARKER (join_nl (kept_lines (split_nl code)))"
    using sublist_strip sublist_order.order_trans by blast
  then obtain l where "l \<in> set (kept_lines (split_nl code))" "sublist SECTION_MARKER l"
    by (auto simp: sublist_join_nl NL_notin_marker marker_nonempty)
  then show False using kept_lines_no_marker by (auto simp: str_in_def)
qed

lemma length_pop_at: "j < length xs \<Longrightarrow> length (pop_at j xs) = length xs - 1"
  by (auto simp: pop_at_def)

lemma pop_at_append: "j < length ys \<Longrightarrow> pop_at j (ys @ zs) = pop_at j ys @ zs"
  by (simp add: pop_at_def)

lemma fold_pop_at_append:
  "sorted_wrt (>) js \<Longrightarrow> \<forall>j\<in>set js. j < length ys \<Longrightarrow>
     fold pop_at js (ys @ zs) = fold pop_at js ys @ zs"
proof (induction js arbitrary: ys)
  case Nil
  then show ?case by simp
next
  case (Cons j js)
  have "\<forall>i\<in>set js. i < length (pop_at j ys)"
    using Cons.prems by (auto simp: length_pop_at)
  with Cons show ?case by (simp add: pop_at_append)
qed

lemma filter_upt_snoc:
  "filter (\<lambda>i. Q ((ys @ [y]) ! i)) [0..<Suc (length ys)] =
     filter (\<lambda>i. Q (ys ! i)) [0..<length ys] @ (if Q y then [length ys] else [])"
proof -
  have "filter (\<lambda>i. Q ((ys @ [y]) ! i)) [0..<length ys] = filter (\<lambda>i. Q (ys ! i)) [0..<length ys]"
    by (rule filter_cong) (auto simp: nth_append)
  then show ?thesis by simp
qed

lemma sorted_wrt_rev_filter_upt: "sorted_wrt (>) (rev (filter P [0..<n]))"
proof -
  have "sorted_wrt (<) (filter P [0..<n])"
    by (rule sorted_wrt_filter) simp
  then show ?thesis by (simp add: sorted_wrt_rev)
qed

lemma fold_pop_at_filter:
  "fold pop_at (rev (filter (\<lambda>i. Q (xs ! i)) [0..<length xs])) xs = filter (\<lambda>x. \<not> Q x) xs"
proof (induction xs rule: rev_induct)
  case Nil
  then show ?case by simp
next
  case (snoc y ys)
  let ?js = "filter (\<lambda>i. Q (ys ! i)) [0..<length ys]"
  have js: "sorted_wrt (>) (rev ?js)" "\<forall>j\<in>set (rev ?js). j < length ys"
    using sorted_wrt_rev_filter_upt [of "\<lambda>i. Q (ys ! i)" "length ys"] by auto
  show ?case
  proof (cases "Q y")
    case True
    have "pop_at (length ys) (ys @ [y]) = ys" by (simp add: pop_at_def)
    with True snoc show ?thesis by (simp add: filter_upt_snoc del: upt_Suc)
  next
    case False
    with snoc fold_pop_at_append [OF js, of "[y]"] show ?thesis
      by (simp add: filter_upt_snoc del: upt_Suc)
  qed
qed

lemma filter_tl_distinct:
  "distinct xs \<Longrightarrow> filter P xs = f # fs \<Longrightarrow> filter (\<lambda>i. P i \<and> i \<noteq> f) xs = fs"
proof (induction xs)
  case Nil
  then show ?case by simp
next
  case (Cons x xs)
  show ?case
  proof (cases "P x")
    case True
    with Cons.prems have f: "f = x" "filter P xs = fs" by auto
    have "filter (\<lambda>i. P i \<and> i \<noteq> x) xs = filter P xs"
      using Cons.prems(1) by (intro filter_cong) auto
    with True f show ?thesis by simp
  next
    case False
    with Cons show ?thesis by auto
  qed
qed

section \<open>The marker protocol\<close>

lemma indent_width_takeWhile: "indent_width l = length (takeWhile isspace l)"
proof -
  have "length (takeWhile isspace l) + length (dropWhile isspace l) = length l"
    by (metis length_append takeWhile_dropWhile_id)
  then show ?thesis by (simp add: indent_width_def lstrip_def)
qed

lemma take_indent_width: "take (indent_width l) l = takeWhile isspace l"
  unfolding indent_width_takeWhile
  by (metis append_eq_conv_conj takeWhile_dropWhile_id)

lemma directive_line_no_marker: "\<not> str_in SECTION_MARKER (takeWhile isspace l @ NEXT_SECTION)"
proof
  assume "str_in SECTION_MARKER (takeWhile isspace l @ NEXT_SECTION)"
  then have "set SECTION_MARKER \<subseteq> set (takeWhile isspace l @ NEXT_SECTION)"
    using set_mono_sublist unfolding str_in_def by blast
  moreover have "CHR ''#'' \<in> set SECTION_MARKER" by (simp add: SECTION_MARKER_def)
  ultimately have "CHR ''#'' \<in> set (takeWhile isspace l) \<or> CHR ''#'' \<in> set NEXT_SECTION"
    by auto
  moreover have "\<not> isspace (CHR ''#'')" by (simp add: isspace_def)
  moreover have "CHR ''#'' \<notin> set NEXT_SECTION" by (simp add: NEXT_SECTION_def)
  ultimately show False by (auto dest: set_takeWhileD)
qed

lemma replace_section_marker_eq:
  "replace_section_marker code =
     (let lines = split_nl code;
          marker_indices = filter (\<lambda>i. str_in SECTION_MARKER (lines ! i)) [0..<length lines]
      in if marker_indices = [] then code
         else join_nl (filter (\<lambda>l. \<not> str_in SECTION_MARKER l)
                 (lines[hd marker_indices :=
                    takeWhile isspace (lines ! hd marker_indices) @ NEXT_SECTION])))"
proof -
  define lines where "lines = split_nl code"
  define Q where "Q = (\<lambda>l. str_in SECTION_MARKER l)"
  define ms where "ms = filter (\<lambda>i. Q (lines ! i)) [0..<length lines]"
  show ?thesis
  proof (cases "ms = []")
    case True
    then show ?thesis
      by (simp add: replace_section_marker_def Let_def lines_def ms_def Q_def)
  next
    case False
    then obtain f fs where ms: "ms = f # fs" by (cases ms) auto
    define new where "new = takeWhile isspace (lines ! f) @ NEXT_SECTION"
    define lines1 where "lines1 = lines[f := new]"
    have "f \<in> set ms" using ms by simp
    then have f: "f < length lines" by (auto simp: ms_def)
    have notQ: "\<not> Q new" by (simp add: Q_def new_def directive_line_no_marker)
    have "filter (\<lambda>i. Q (lines1 ! i)) [0..<length lines1]
            = filter (\<lambda>i. Q (lines ! i) \<and> i \<noteq> f) [0..<length lines]"
      using notQ f by (auto simp: lines1_def nth_list_update intro!: filter_cong)
    also have "\<dots> = fs"
      using ms by (intro filter_tl_distinct) (auto simp: ms_def)
    finally have "fold pop_at (rev fs) lines1 = filter (\<lambda>x. \<not> Q x) lines1"
      using fold_pop_at_filter [of Q lines1] by simp
    then show ?thesis
      using ms False
      by (simp add: replace_section_marker_def Let_def take_indent_width
          flip: lines_def Q_def ms_def new_def lines1_def)
  qed
qed

lemma replace_section_marker_no_marker: "\<not> str_in SECTION_MARKER (replace_section_marker code)"
proof -
  define lines where "lines = split_nl code"
  define ms where "ms = filter (\<lambda>i. str_in SECTION_MARKER (lines ! i)) [0..<length lines]"
  show ?thesis
  proof (cases "ms = []")
    case True
    then have "\<forall>i<length lines. \<not> str_in SECTION_MARKER (lines ! i)"
      by (auto simp: ms_def filter_empty_conv)
    then have "\<forall>l\<in>set lines. \<not> sublist SECTION_MARKER l"
      by (auto simp: in_set_conv_nth str_in_def)
    then have "\<not> sublist SECTION_MARKER (join_nl lines)"
      by (simp add: sublist_join_nl NL_notin_marker marker_nonempty)
    moreover have "replace_section_marker code = code"
      using True by (simp add: replace_section_marker_eq Let_def flip: lines_def ms_def)
    ultimately show ?thesis by (simp add: lines_def join_split_nl str_in_def)
  next
    case False
    then have "replace_section_marker code =
        join_nl (filter (\<lambda>l. \<not> str_in SECTION_MARKER l)
                 (lines[hd ms := takeWhile isspace (lines ! hd ms) @ NEXT_SECTION]))"
      by (simp add: replace_section_marker_eq Let_def flip: lines_def ms_def)
    then show ?thesis
      by (simp add: str_in_def sublist_join_nl NL_notin_marker marker_nonempty)
  qed
qed

text \<open>
  C2. Whatever the previous program text and the generated fragment are, the text that
  the assembly returns (first round: markers stripped; continuation: markers finalised)
  has no occurrence of the sentinel \<open># <<SECTION_BREAK>>\<close>.
\<close>

theorem no_marker_in_output:
  "\<not> str_in SECTION_MARKER (ensure_section_addition existing_code ai_response current_prompt)"
  by (simp add: ensure_section_addition_def Let_def strip_markers_no_marker
      replace_section_marker_no_marker)

section \<open>Segment resolution\<close>

text \<open>
  C3. Round 0 resolves to the whole-program output path whatever the segment set holds.
  For a round index of at least 1 and a segment set of size count, ordered by file name:
  an index below count resolves to the element at that position, an index of at least
  count resolves to the last element when count is positive, and with count 0 the empty
  string is recorded (no playable file).
\<close>

theorem segment_resolution:
  "on_finished_section_video_path 0 r = Inr (path_str (video_path r)) \<and>
   (1 \<le> i \<and> i < int (length (section_videos r)) \<longrightarrow>
      on_finished_section_video_path i r =
        Inr (path_str (sort_key path_name (section_videos r) ! nat i))) \<and>
   (1 \<le> i \<and> int (length (section_videos r)) \<le> i \<and> 0 < length (section_videos r) \<longrightarrow>
      on_finished_section_video_path i r =
        Inr (path_str (last (sort_key path_name (section_videos r))))) \<and>
   (1 \<le> i \<and> length (section_videos r) = 0 \<longrightarrow>
      on_finished_section_video_path i r = Inr []) \<and>
   sorted (map path_name (sort_key path_name (section_videos r))) \<and>
   set (sort_key path_name (section_videos r)) = set (section_videos r) \<and>
   length (sort_key path_name (section_videos r)) = length (section_videos r)"
  by (auto simp: on_finished_section_video_path_def py_index_def Let_def)

theorem segment_resolution_witness:
  "(1::int) \<le> 1 \<and> (1::int) < int (length [[''s'', ''b.mp4''], [''s'', ''a.mp4'']]) \<and>
   on_finished_section_video_path 1
       \<lparr>video_path = [''out'', ''render.mp4''], script_path = [''scene.py''], class_name = ''S'',
         section_videos = [[''s'', ''b.mp4''], [''s'', ''a.mp4'']]\<rparr> = Inr ''s/b.mp4'' \<and>
   (1::int) \<le> 5 \<and> int (length [[''s'', ''b.mp4''], [''s'', ''a.mp4'']]) \<le> 5 \<and>
   0 < length [[''s'', ''b.mp4''], [''s'', ''a.mp4'']] \<and>
   on_finished_section_video_path 5
       \<lparr>video_path = [''out'', ''render.mp4''], script_path = [''scene.py''], class_name = ''S'',
         section_videos = [[''s'', ''b.mp4''], [''s'', ''a.mp4'']]\<rparr> = Inr ''s/b.mp4'' \<and>
   (1::int) \<le> 1 \<and> length ([] :: path list) = 0 \<and>
   on_finished_section_video_path 1
       \<lparr>video_path = [''out'', ''render.mp4''], script_path = [''scene.py''], class_name = ''S'',
         section_videos = []\<rparr> = Inr []"
proof -
  have s: "\<not> path_name [''s'', ''b.mp4''] \<le> path_name [''s'', ''a.mp4'']"
    by code_simp
  show ?thesis
    using segment_resolution [of "\<lparr>video_path = [''out'', ''render.mp4''], script_path = [''scene.py''], class_name = ''S'',
         section_videos = [[''s'', ''b.mp4''], [''s'', ''a.mp4'']]\<rparr>" 1]
      segment_resolution [of "\<lparr>video_path = [''out'', ''render.mp4''], script_path = [''scene.py''], class_name = ''S'',
         section_videos = [[''s'', ''b.mp4''], [''s'', ''a.mp4'']]\<rparr>" 5]
      segment_resolution [of "\<lparr>video_path = [''out'', ''render.mp4''], script_path = [''scene.py''], class_name = ''S'',
         section_videos = []\<rparr>" 1]
    by (simp add: s path_str_def)
qed

section \<open>The insertion point\<close>











section \<open>The fence stripper\<close>

lemma length_strip_le: "length (strip s) \<le> length s"
  by (simp add: sublist_strip sublist_length_le)

lemma length_join_splitlines: "length (join_nl (splitlines s)) \<le> length s"
proof (induction s rule: splitlines.induct)
  case 1
  then show ?case by simp
next
  case (2 c cs)
  have j: "length (join_nl ([] # ls)) \<le> Suc (length (join_nl ls))" for ls
    by (cases ls) auto
  show ?case
  proof (cases "c = CR")
    case True
    show ?thesis
    proof (cases cs)
      case Nil
      with True show ?thesis by simp
    next
      case (Cons d ds)
      show ?thesis
      proof (cases "d = NL")
        case dn: True
        with True Cons 2(1) have "length (join_nl (splitlines ds)) \<le> length ds" by simp
        with j [of "splitlines ds"] True Cons dn show ?thesis by simp
      next
        case dn: False
        with True Cons 2(2) have "length (join_nl (splitlines cs)) \<le> length cs" by simp
        with j [of "splitlines cs"] True Cons dn show ?thesis by simp
      qed
    qed
  next
    case False
    show ?thesis
    proof (cases "is_linebreak c")
      case True
      with False 2(3) have "length (join_nl (splitlines cs)) \<le> length cs" by simp
      with j [of "splitlines cs"] False True show ?thesis by simp
    next
      case lb: False
      with False 2(4) have ih: "length (join_nl (splitlines cs)) \<le> length cs" by simp
      show ?thesis
      proof (cases "splitlines cs")
        case Nil
        with False lb show ?thesis by simp
      next
        case (Cons l ls)
        have "length (join_nl ((c # l) # ls)) = Suc (length (join_nl (l # ls)))"
          by (cases ls) auto
        with ih Cons False lb show ?thesis by simp
      qed
    qed
  qed
qed

lemma length_join_tl:
  "l \<noteq> [] \<Longrightarrow> length (join_nl ls) < length (join_nl (l # ls))"
  by (cases ls) auto

lemma length_join_butlast: "length (join_nl (butlast ls)) \<le> length (join_nl ls)"
  by (induction ls rule: join_nl.induct) auto

lemma splitlines_first_nonempty:
  "c \<noteq> CR \<Longrightarrow> \<not> is_linebreak c \<Longrightarrow> \<exists>l ls. splitlines (c # cs) = (c # l) # ls"
  by (cases "splitlines cs") auto

lemma fence_chars: "FENCE = [CHR 0x60, CHR 0x60, CHR 0x60]"
  by (simp add: FENCE_def)

lemma strip_code_fences_shorter:
  assumes "startswith (strip t) FENCE"
  shows "length (strip_code_fences t) < length t"
proof -
  from assms obtain cs where st: "strip t = CHR 0x60 # cs"
    by (auto simp: startswith_def fence_chars prefix_def)
  have "CHR 0x60 \<noteq> CR" "\<not> is_linebreak (CHR 0x60)"
    by (simp_all add: CR_def is_linebreak_def)
  from splitlines_first_nonempty [OF this, of cs] obtain l ls
    where sl: "splitlines (strip t) = (CHR 0x60 # l) # ls" by (auto simp: st)
  define ls2 where "ls2 = (if ls \<noteq> [] \<and> startswith (strip (last ls)) FENCE then butlast ls else ls)"
  have "strip_code_fences t = join_nl ls2"
    using assms by (simp add: strip_code_fences_def Let_def sl ls2_def)
  moreover have "length (join_nl ls2) \<le> length (join_nl ls)"
    by (simp add: ls2_def length_join_butlast)
  moreover have "length (join_nl ls) < length (join_nl ((CHR 0x60 # l) # ls))"
    by (rule length_join_tl) simp
  moreover have "length (join_nl ((CHR 0x60 # l) # ls)) \<le> length (strip t)"
    using length_join_splitlines [of "strip t"] by (simp add: sl)
  ultimately show ?thesis using length_strip_le [of t] by simp
qed

text \<open>
  C8 (as amended). An input whose trimmed text does not begin with a fence opener is
  returned unchanged; and stripping twice equals stripping once exactly when the first
  result, trimmed, does not begin with a fence opener.
\<close>

theorem fence_stripper_idempotence:
  "(\<not> startswith (strip code) FENCE \<longrightarrow> strip_code_fences code = code) \<and>
   (strip_code_fences (strip_code_fences code) = strip_code_fences code
      \<longleftrightarrow> \<not> startswith (strip (strip_code_fences code)) FENCE)"
proof -
  have 1: "strip_code_fences t = t" if "\<not> startswith (strip t) FENCE" for t
    using that by (simp add: strip_code_fences_def)
  have 2: "strip_code_fences t \<noteq> t" if "startswith (strip t) FENCE" for t
    using strip_code_fences_shorter [OF that] by auto
  from 1 2 show ?thesis by blast
qed

theorem fence_stripper_idempotence_witness:
  "\<not> startswith (strip ''x = 1'') FENCE \<and> strip_code_fences ''x = 1'' = ''x = 1'' \<and>
   \<not> startswith (strip (strip_code_fences (''```python'' @ [NL] @ ''x = 1'' @ [NL] @ ''```''))) FENCE \<and>
   strip_code_fences (strip_code_fences (''```python'' @ [NL] @ ''x = 1'' @ [NL] @ ''```'')) =
     strip_code_fences (''```python'' @ [NL] @ ''x = 1'' @ [NL] @ ''```'')"
proof -
  have a: "\<not> startswith (strip ''x = 1'') FENCE" by code_simp
  have b: "\<not> startswith (strip (strip_code_fences (''```python'' @ [NL] @ ''x = 1'' @ [NL] @ ''```''))) FENCE"
    by code_simp
  from a fence_stripper_idempotence [of "''x = 1''"]
  have 1: "strip_code_fences ''x = 1'' = ''x = 1''" by blast
  from b fence_stripper_idempotence [of "''```python'' @ [NL] @ ''x = 1'' @ [NL] @ ''```''"]
  have 2: "strip_code_fences (strip_code_fences (''```python'' @ [NL] @ ''x = 1'' @ [NL] @ ''```'')) =
     strip_code_fences (''```python'' @ [NL] @ ''x = 1'' @ [NL] @ ''```'')" by blast
  from a b 1 2 show ?thesis by blast
qed

text \<open>
  C8 as stated fails: on a text that opens with two fence lines each application removes
  one of them, so the second application changes the result of the first.
\<close>

theorem fence_stripper_not_idempotent:
  "strip_code_fences (''```'' @ [NL] @ ''```'' @ [NL] @ ''x'') = ''```'' @ [NL] @ ''x'' \<and>
   strip_code_fences (strip_code_fences (''```'' @ [NL] @ ''```'' @ [NL] @ ''x'')) = ''x'' \<and>
   strip_code_fences (strip_code_fences (''```'' @ [NL] @ ''```'' @ [NL] @ ''x''))
     \<noteq> strip_code_fences (''```'' @ [NL] @ ''```'' @ [NL] @ ''x'')"
  by code_simp

section \<open>Section video discovery\<close>






section \<open>Scene class extraction\<close>













section \<open>The dedent step\<close>
















section \<open>The spliced block\<close>










section \<open>Counting section breaks\<close>



































end
